theory Spec2Isabelle
  imports Main "HOL-Library.Multiset"
begin

section \<open>Word frequency analysis (2word\_frequency\_analysis.py)\<close>

subsection \<open>Python strings\<close>

text \<open>
  A text is a sequence of code points. The model covers the code points below 256 (the
  Latin-1 block, which contains ASCII): on these \<open>str.lower\<close> maps one character to one
  character, and \<open>string.punctuation\<close>, \<open>str.lower\<close> and the white space of
  \<open>str.split\<close> are written out in full below.
\<close>

definition punctuation :: string where
  \<comment> \<open>\<open>string.punctuation\<close>: code points 33..47, 58..64, 91..96 and 123..126\<close>
  "punctuation = map char_of ([33..<48] @ [58..<65] @ [91..<97] @ [123..<127] :: nat list)"

definition remove_punctuation :: "string \<Rightarrow> string" where
  \<comment> \<open>\<open>text.translate(str.maketrans('', '', string.punctuation))\<close> deletes these characters\<close>
  "remove_punctuation text = filter (\<lambda>c. c \<notin> set punctuation) text"

definition lower_char :: "char \<Rightarrow> char" where
  \<comment> \<open>A..Z, and the Latin-1 capitals 192..222 other than the multiplication sign 215\<close>
  "lower_char c = (let n = (of_char c :: nat) in
     if 65 \<le> n \<and> n \<le> 90 then char_of (n + 32)
     else if n = 215 then c
     else if 192 \<le> n \<and> n \<le> 222 then char_of (n + 32)
     else c)"

definition lower :: "string \<Rightarrow> string" where
  "lower text = map lower_char text"

definition isspace :: "char \<Rightarrow> bool" where
  \<comment> \<open>\<open>str.isspace\<close>: 9..13, 28..32, 133 (NEL) and 160 (no-break space)\<close>
  "isspace c = (let n = (of_char c :: nat) in
     if 9 \<le> n \<and> n \<le> 13 then True
     else if 28 \<le> n \<and> n \<le> 32 then True
     else if n = 133 then True
     else n = 160)"

definition isupper :: "char \<Rightarrow> bool" where
  \<comment> \<open>\<open>str.isupper\<close> of one character: A..Z and the Latin-1 capitals\<close>
  "isupper c = (let n = (of_char c :: nat) in
     if 65 \<le> n \<and> n \<le> 90 then True
     else if n = 215 then False
     else 192 \<le> n \<and> n \<le> 222)"

fun split_from :: "string \<Rightarrow> string \<Rightarrow> string list" where
  \<comment> \<open>\<open>cur\<close> is the token being read; runs of white space separate tokens and no token is empty\<close>
  "split_from cur [] = (if cur = [] then [] else [cur])"
| "split_from cur (c # cs) =
     (if isspace c then (if cur = [] then split_from [] cs else cur # split_from [] cs)
      else split_from (cur @ [c]) cs)"

definition split :: "string \<Rightarrow> string list" where
  \<comment> \<open>\<open>text.split()\<close> with no separator\<close>
  "split text = split_from [] text"

subsection \<open>Dictionaries in insertion order\<close>

text \<open>
  A Python dict keeps its keys in the order of their first insertion. It is an association
  list; storing under a key that is present replaces the value where it stands, and a new
  key goes to the end.
\<close>

fun setitem :: "'k \<Rightarrow> 'v \<Rightarrow> ('k \<times> 'v) list \<Rightarrow> ('k \<times> 'v) list" where
  "setitem k v [] = [(k, v)]"
| "setitem k v ((k', v') # d) = (if k' = k then (k', v) # d else (k', v') # setitem k v d)"

definition dict :: "('k \<times> 'v) list \<Rightarrow> ('k \<times> 'v) list" where
  \<comment> \<open>\<open>dict(pairs)\<close>\<close>
  "dict pairs = foldl (\<lambda>d (k, v). setitem k v d) [] pairs"

fun append_value :: "'k \<Rightarrow> 'v \<Rightarrow> ('k \<times> 'v list) list \<Rightarrow> ('k \<times> 'v list) list" where
  \<comment> \<open>\<open>shuffled[key].append(value)\<close> on a \<open>defaultdict(list)\<close>\<close>
  "append_value k v [] = [(k, [v])]"
| "append_value k v ((k', vs) # d) =
     (if k' = k then (k', vs @ [v]) # d else (k', vs) # append_value k v d)"

subsection \<open>The stages\<close>

definition articles :: "string list" where
  "articles = [''the'', ''a'', ''an'', ''of'', ''to'', ''and'', ''in'', ''it'', ''that'', ''not'',
     ''as'', ''is'', ''at'', ''for'', ''but'', ''on'', ''or'', ''by'', ''from'']"

definition words_of :: "string \<Rightarrow> string list" where
  \<comment> \<open>the local variable \<open>words\<close> of \<open>map_reduce\<close>\<close>
  "words_of text =
     filter (\<lambda>word. word \<notin> set articles) (split (lower (remove_punctuation text)))"

definition map_function :: "string \<Rightarrow> string \<times> int" where
  "map_function word = (word, 1)"

definition shuffle_function :: "('k \<times> 'v) list \<Rightarrow> ('k \<times> 'v list) list" where
  "shuffle_function mapped_values = foldl (\<lambda>shuffled (key, value). append_value key value shuffled) [] mapped_values"

definition reduce_function :: "'k \<times> int list \<Rightarrow> 'k \<times> int" where
  "reduce_function key_values = (case key_values of (key, values) \<Rightarrow> (key, sum_list values))"

definition map_reduce :: "string \<Rightarrow> (string \<times> int) list" where
  \<comment> \<open>\<open>executor.map\<close> returns the results in the order of its input\<close>
  "map_reduce text =
     (let words = words_of text;
          mapped_values = map map_function words;
          shuffled_values = shuffle_function mapped_values;
          reduced_values = map reduce_function shuffled_values
      in dict reduced_values)"

definition first_seen :: "'a list \<Rightarrow> 'a list" where
  \<comment> \<open>the distinct elements of a sequence, each at the place of its first occurrence\<close>
  "first_seen ws = rev (remdups (rev ws))"

subsection \<open>Presentation\<close>

datatype py_error = ValueError

definition sorted_reverse :: "('a \<Rightarrow> int) \<Rightarrow> 'a list \<Rightarrow> 'a list" where
  \<comment> \<open>\<open>sorted(xs, key=key, reverse=True)\<close>: the list is reversed, sorted by a stable
      ascending sort, and reversed again\<close>
  "sorted_reverse key xs = rev (sort_key key (rev xs))"

definition slice_to :: "int \<Rightarrow> 'a list \<Rightarrow> 'a list" where
  \<comment> \<open>\<open>xs[:n]\<close>: a negative bound counts from the end\<close>
  "slice_to n xs = (if n < 0 then take (nat (int (length xs) + n)) xs else take (nat n) xs)"

definition sorted_words :: "(string \<times> int) list \<Rightarrow> int \<Rightarrow> (string \<times> int) list" where
  \<comment> \<open>the local variable \<open>sorted_words\<close> of \<open>visualize_top_words\<close>\<close>
  "sorted_words result top_n = slice_to top_n (sorted_reverse snd result)"

record chart =
  bar_words :: "string list"
  bar_frequencies :: "int list"
  title_top_n :: int

definition visualize_top_words :: "(string \<times> int) list \<Rightarrow> int \<Rightarrow> py_error + chart" where
  \<comment> \<open>\<open>zip(*[])\<close> yields nothing, and unpacking nothing into \<open>words, frequencies\<close> raises
      ValueError; one pair or more yields exactly the two tuples\<close>
  "visualize_top_words result top_n =
     (let sw = sorted_words result top_n
      in if sw = [] then Inl ValueError
         else Inr \<lparr>bar_words = map fst sw, bar_frequencies = map snd sw, title_top_n = top_n\<rparr>)"

definition example_result :: "(string \<times> int) list" where
  "example_result = [(''cat'', 3), (''sat'', 1), (''mat'', 1), (''ran'', 1)]"

section \<open>File sorter (1async\_file\_sorter.py)\<close>

subsection \<open>Paths\<close>

text \<open>
  A \<open>pathlib.Path\<close> is the list of its components, from a common root. \<open>suffix\<close> is the
  one of pathlib up to Python 3.13: the part of the name from its last dot on, when that
  dot is neither the first nor the last character of the name.
\<close>

type_synonym path = "string list"

definition name :: "path \<Rightarrow> string" where
  "name p = (if p = [] then [] else last p)"

definition parent :: "path \<Rightarrow> path" where
  "parent p = butlast p"

definition joinpath :: "path \<Rightarrow> string \<Rightarrow> path" where
  \<comment> \<open>\<open>p / s\<close> for a component \<open>s\<close> without separator; an empty component adds nothing\<close>
  "joinpath p s = (if s = [] then p else p @ [s])"

fun rfind_from :: "char \<Rightarrow> string \<Rightarrow> int \<Rightarrow> int \<Rightarrow> int" where
  "rfind_from c [] i found = found"
| "rfind_from c (x # xs) i found = rfind_from c xs (i + 1) (if x = c then i else found)"

definition rfind :: "string \<Rightarrow> char \<Rightarrow> int" where
  \<comment> \<open>\<open>s.rfind(c)\<close>: the highest index of \<open>c\<close>, or -1\<close>
  "rfind s c = rfind_from c s 0 (- 1)"

definition suffix :: "path \<Rightarrow> string" where
  "suffix p =
     (let nm = name p; i = rfind nm (CHR ''.'')
      in if 0 < i \<and> i < int (length nm) - 1 then drop (nat i) nm else [])"

subsection \<open>The file system and the log\<close>

datatype node = File string | Dir

datatype exn =
    FileNotFoundError | IsADirectoryError | NotADirectoryError | FileExistsError | PermissionError
  | CancelledError | KeyboardInterrupt

fun is_Exception :: "exn \<Rightarrow> bool" where
  \<comment> \<open>the classes that \<open>except Exception\<close> catches; the last two derive from BaseException only\<close>
  "is_Exception CancelledError = False"
| "is_Exception KeyboardInterrupt = False"
| "is_Exception e = True"

datatype log_entry = Info path path | Error path exn

fun entry_source :: "log_entry \<Rightarrow> path" where
  "entry_source (Info source_path destination_path) = source_path"
| "entry_source (Error source_path e) = source_path"

record world =
  fs :: "path \<Rightarrow> node option"
  denied :: "path set"
  log :: "log_entry list"

fun make_dirs :: "path \<Rightarrow> string list \<Rightarrow> world \<Rightarrow> (exn \<times> world) + world" where
  \<comment> \<open>creates the missing directories below \<open>p\<close> along the components, outermost first\<close>
  "make_dirs p [] w = Inr w"
| "make_dirs p (c # cs) w =
     (let q = p @ [c]
      in case fs w q of
           Some Dir \<Rightarrow> make_dirs q cs w
         | Some (File data) \<Rightarrow> Inl (if cs = [] then FileExistsError else NotADirectoryError, w)
         | None \<Rightarrow>
             if q \<in> denied w then Inl (PermissionError, w)
             else make_dirs q cs (w\<lparr>fs := (fs w)(q \<mapsto> Dir)\<rparr>))"

definition mkdir :: "path \<Rightarrow> world \<Rightarrow> (exn \<times> world) + world" where
  \<comment> \<open>\<open>p.mkdir(parents=True, exist_ok=True)\<close>\<close>
  "mkdir p w = make_dirs [] p w"

definition is_dir :: "world \<Rightarrow> path \<Rightarrow> bool" where
  "is_dir w p = (if p = [] then True else fs w p = Some Dir)"

definition open_rb :: "path \<Rightarrow> world \<Rightarrow> (exn \<times> world) + world" where
  "open_rb p w =
     (case fs w p of
        None \<Rightarrow> Inl (FileNotFoundError, w)
      | Some Dir \<Rightarrow> Inl (IsADirectoryError, w)
      | Some (File data) \<Rightarrow> if p \<in> denied w then Inl (PermissionError, w) else Inr w)"

definition open_wb :: "path \<Rightarrow> world \<Rightarrow> (exn \<times> world) + world" where
  \<comment> \<open>creates the file, or truncates the one that is there\<close>
  "open_wb p w =
     (if is_dir w (parent p) then
        (case fs w p of
           Some Dir \<Rightarrow> Inl (IsADirectoryError, w)
         | Some (File data) \<Rightarrow>
             if p \<in> denied w then Inl (PermissionError, w) else Inr (w\<lparr>fs := (fs w)(p \<mapsto> File [])\<rparr>)
         | None \<Rightarrow>
             if p \<in> denied w then Inl (PermissionError, w) else Inr (w\<lparr>fs := (fs w)(p \<mapsto> File [])\<rparr>))
      else Inl (FileNotFoundError, w))"

definition read_all :: "path \<Rightarrow> world \<Rightarrow> string" where
  "read_all p w = (case fs w p of Some (File data) \<Rightarrow> data | Some Dir \<Rightarrow> [] | None \<Rightarrow> [])"

definition write_all :: "path \<Rightarrow> string \<Rightarrow> world \<Rightarrow> world" where
  "write_all p data w = w\<lparr>fs := (fs w)(p \<mapsto> File data)\<rparr>"

subsection \<open>copy\_file and read\_folder\<close>

definition extension :: "path \<Rightarrow> string" where
  \<comment> \<open>\<open>source_path.suffix[1:] or "no_extension"\<close>\<close>
  "extension source_path =
     (let e = drop 1 (suffix source_path) in if e = [] then ''no_extension'' else e)"

definition destination_path :: "path \<Rightarrow> path \<Rightarrow> path" where
  "destination_path source_path destination_folder =
     joinpath (joinpath destination_folder (extension source_path)) (name source_path)"

definition copy_try :: "path \<Rightarrow> path \<Rightarrow> world \<Rightarrow> (exn \<times> world) + world" where
  \<comment> \<open>the body of the \<open>try\<close>; an exception leaves the world as it was when raised\<close>
  "copy_try source_path destination_folder w =
     (let dst = destination_path source_path destination_folder
      in case mkdir (parent dst) w of
           Inl x \<Rightarrow> Inl x
         | Inr w1 \<Rightarrow>
             (case open_rb source_path w1 of
                Inl x \<Rightarrow> Inl x
              | Inr w2 \<Rightarrow>
                  (case open_wb dst w2 of
                     Inl x \<Rightarrow> Inl x
                   | Inr w3 \<Rightarrow>
                       (let w4 = write_all dst (read_all source_path w3) w3
                        in Inr (w4\<lparr>log := log w4 @ [Info source_path dst]\<rparr>)))))"

definition copy_file :: "path \<Rightarrow> path \<Rightarrow> world \<Rightarrow> (exn \<times> world) + world" where
  \<comment> \<open>\<open>except Exception as e: logger.error(...)\<close>; any other exception passes through\<close>
  "copy_file source_path destination_folder w =
     (case copy_try source_path destination_folder w of
        Inr w' \<Rightarrow> Inr w'
      | Inl (e, w') \<Rightarrow>
          if is_Exception e then Inr (w'\<lparr>log := log w' @ [Error source_path e]\<rparr>)
          else Inl (e, w'))"

text \<open>
  Under the event loop \<open>copy_file\<close> is a coroutine: it runs up to an \<open>await\<close> and is
  resumed when the awaited operation is done. A stage names the await at which a copy is
  suspended: the two opens, the read, the write and the two closes that leave the
  \<open>async with\<close>, the second with the exception that is on its way, if any.
\<close>

datatype stage =
    Created path path
  | Opening_src path path
  | Opening_dst path path
  | Reading path path
  | Writing path path string
  | Closing_dst path path "exn option"
  | Closing_src path path "exn option"
  | Returned
  | Raised exn

text \<open>
  \<open>except Exception as e: logger.error(...)\<close>: an exception of another class passes.
\<close>

definition handler :: "path \<Rightarrow> exn \<Rightarrow> world \<Rightarrow> stage \<times> world" where
  "handler source_path e w =
     (if is_Exception e then (Returned, w\<lparr>log := log w @ [Error source_path e]\<rparr>)
      else (Raised e, w))"

text \<open>
  \<open>resume\<close> completes the awaited operation and runs the coroutine to its next await;
  \<open>cancel\<close> raises CancelledError at the await instead, and the operation has no effect.
\<close>

fun resume :: "stage \<Rightarrow> world \<Rightarrow> stage \<times> world" where
  "resume (Created source_path destination_folder) w =
     (let dst = destination_path source_path destination_folder
      in case mkdir (parent dst) w of
           Inl (e, w') \<Rightarrow> handler source_path e w'
         | Inr w' \<Rightarrow> (Opening_src source_path dst, w'))"
| "resume (Opening_src source_path dst) w =
     (case open_rb source_path w of
        Inl (e, w') \<Rightarrow> handler source_path e w'
      | Inr w' \<Rightarrow> (Opening_dst source_path dst, w'))"
| "resume (Opening_dst source_path dst) w =
     (case open_wb dst w of
        Inl (e, w') \<Rightarrow> (Closing_src source_path dst (Some e), w')
      | Inr w' \<Rightarrow> (Reading source_path dst, w'))"
| "resume (Reading source_path dst) w = (Writing source_path dst (read_all source_path w), w)"
| "resume (Writing source_path dst data) w = (Closing_dst source_path dst None, write_all dst data w)"
| "resume (Closing_dst source_path dst pending) w = (Closing_src source_path dst pending, w)"
| "resume (Closing_src source_path dst pending) w =
     (case pending of
        None \<Rightarrow> (Returned, w\<lparr>log := log w @ [Info source_path dst]\<rparr>)
      | Some e \<Rightarrow> handler source_path e w)"
| "resume Returned w = (Returned, w)"
| "resume (Raised e) w = (Raised e, w)"

fun cancel :: "stage \<Rightarrow> world \<Rightarrow> stage \<times> world" where
  "cancel (Created source_path destination_folder) w = (Raised CancelledError, w)"
| "cancel (Opening_src source_path dst) w = handler source_path CancelledError w"
| "cancel (Opening_dst source_path dst) w = (Closing_src source_path dst (Some CancelledError), w)"
| "cancel (Reading source_path dst) w = (Closing_dst source_path dst (Some CancelledError), w)"
| "cancel (Writing source_path dst data) w = (Closing_dst source_path dst (Some CancelledError), w)"
| "cancel (Closing_dst source_path dst pending) w = (Closing_src source_path dst (Some CancelledError), w)"
| "cancel (Closing_src source_path dst pending) w = handler source_path CancelledError w"
| "cancel Returned w = (Returned, w)"
| "cancel (Raised e) w = (Raised e, w)"

fun finished :: "stage \<Rightarrow> bool" where
  "finished Returned = True"
| "finished (Raised e) = True"
| "finished st = False"

text \<open>A copy has seven awaits at most, so seven resumptions finish it.\<close>

primrec run_for :: "nat \<Rightarrow> stage \<Rightarrow> world \<Rightarrow> stage \<times> world" where
  "run_for 0 st w = (st, w)"
| "run_for (Suc n) st w = (case resume st w of (st', w') \<Rightarrow> run_for n st' w')"

definition finish :: "stage \<Rightarrow> world \<Rightarrow> stage \<times> world" where
  "finish st w = run_for 7 st w"

text \<open>
  \<open>asyncio.gather\<close> starts the copies in the order of the list, each up to its first
  await, and the event loop then resumes them in the order in which their operations
  complete. That order is the schedule: \<open>Resume i\<close> resumes the copy at index \<open>i\<close>, and
  \<open>Interrupt\<close> is the cancellation of the run, which reaches every copy that has not
  finished. When the schedule ends, the copies left are finished in the order of the
  list. An exception of a copy is raised to the caller, and the copies left are cancelled.
\<close>

datatype event = Resume nat | Interrupt

fun each :: "(stage \<Rightarrow> world \<Rightarrow> stage \<times> world) \<Rightarrow> stage list \<Rightarrow> world \<Rightarrow> stage list \<times> world" where
  "each f [] w = ([], w)"
| "each f (t # ts) w =
     (case f t w of (t', w') \<Rightarrow> (case each f ts w' of (ts', w'') \<Rightarrow> (t' # ts', w'')))"

fun first_raised :: "stage list \<Rightarrow> exn option" where
  "first_raised [] = None"
| "first_raised (Raised e # ts) = Some e"
| "first_raised (t # ts) = first_raised ts"

definition abort :: "exn \<Rightarrow> stage list \<Rightarrow> world \<Rightarrow> (exn \<times> world) + world" where
  "abort e ts w =
     (case each cancel ts w of (ts1, w1) \<Rightarrow> (case each finish ts1 w1 of (ts2, w2) \<Rightarrow> Inl (e, w2)))"

fun run_events :: "event list \<Rightarrow> stage list \<Rightarrow> world \<Rightarrow> (exn \<times> world) + world" where
  "run_events [] ts w =
     (case each finish ts w of (ts', w') \<Rightarrow>
        (case first_raised ts' of None \<Rightarrow> Inr w' | Some e \<Rightarrow> Inl (e, w')))"
| "run_events (Interrupt # evs) ts w = abort CancelledError ts w"
| "run_events (Resume i # evs) ts w =
     (if i < length ts \<and> \<not> finished (ts ! i) then
        (case resume (ts ! i) w of (t', w') \<Rightarrow>
           (case t' of
              Raised e \<Rightarrow> abort e (ts[i := t']) w'
            | _ \<Rightarrow> run_events evs (ts[i := t']) w'))
      else run_events evs ts w)"

definition gather :: "event list \<Rightarrow> stage list \<Rightarrow> world \<Rightarrow> (exn \<times> world) + world" where
  "gather schedule tasks w =
     (if tasks = [] then Inr w
      else (case each resume tasks w of (ts, w') \<Rightarrow>
              (case first_raised ts of
                 Some e \<Rightarrow> abort e ts w'
               | None \<Rightarrow> run_events schedule ts w')))"

text \<open>
  The first argument of \<open>read_folder\<close> is what \<open>os.walk(source_folder)\<close> yields, each
  directory with its files; the second has the schedule of each directory's \<open>gather\<close>.
\<close>

fun read_folder :: "(path \<times> string list) list \<Rightarrow> event list list \<Rightarrow> path \<Rightarrow> world \<Rightarrow> (exn \<times> world) + world" where
  "read_folder [] schedules output_folder w = Inr w"
| "read_folder ((root, files) # rest) schedules output_folder w =
     (case gather (case schedules of [] \<Rightarrow> [] | schedule # later \<Rightarrow> schedule)
             (map (\<lambda>file. Created (joinpath root file) output_folder) files) w of
        Inl x \<Rightarrow> Inl x
      | Inr w' \<Rightarrow> read_folder rest (tl schedules) output_folder w')"

definition walked_files :: "(path \<times> string list) list \<Rightarrow> path list" where
  \<comment> \<open>the source paths of a walk\<close>
  "walked_files walk = concat (map (\<lambda>(root, files). map (joinpath root) files) walk)"

text \<open>
  For the proofs: a copy is \<open>ok\<close> when no cancellation is on its way, \<open>remaining\<close> is
  the source path it has yet to log, and \<open>rank\<close> bounds the awaits it has left.
\<close>

fun ok :: "stage \<Rightarrow> bool" where
  "ok (Closing_dst source_path dst (Some e)) = is_Exception e"
| "ok (Closing_src source_path dst (Some e)) = is_Exception e"
| "ok (Raised e) = False"
| "ok st = True"

fun remaining :: "stage \<Rightarrow> path multiset" where
  "remaining Returned = {#}"
| "remaining (Raised e) = {#}"
| "remaining (Created source_path destination_folder) = {#source_path#}"
| "remaining (Opening_src source_path dst) = {#source_path#}"
| "remaining (Opening_dst source_path dst) = {#source_path#}"
| "remaining (Reading source_path dst) = {#source_path#}"
| "remaining (Writing source_path dst data) = {#source_path#}"
| "remaining (Closing_dst source_path dst pending) = {#source_path#}"
| "remaining (Closing_src source_path dst pending) = {#source_path#}"

fun rank :: "stage \<Rightarrow> nat" where
  "rank (Created source_path destination_folder) = 7"
| "rank (Opening_src source_path dst) = 6"
| "rank (Opening_dst source_path dst) = 5"
| "rank (Reading source_path dst) = 4"
| "rank (Writing source_path dst data) = 3"
| "rank (Closing_dst source_path dst pending) = 2"
| "rank (Closing_src source_path dst pending) = 1"
| "rank Returned = 0"
| "rank (Raised e) = 0"

definition example_world :: world where
  \<comment> \<open>a source folder with one file; nothing is denied and the log is empty\<close>
  "example_world =
     \<lparr>fs = [[''src''] \<mapsto> Dir, [''src'', ''a.txt''] \<mapsto> File ''hello''], denied = {}, log = []\<rparr>"

section \<open>Properties of the word count\<close>

subsection \<open>What the stages compute\<close>

lemma first_seen_snoc:
  "first_seen (ws @ [w]) = (if w \<in> set ws then first_seen ws else first_seen ws @ [w])"
  by (simp add: first_seen_def)

lemma set_first_seen: "set (first_seen ws) = set ws"
  by (simp add: first_seen_def)

lemma distinct_first_seen: "distinct (first_seen ws)"
  by (simp add: first_seen_def)

lemma setitem_fresh: "k \<notin> fst ` set d \<Longrightarrow> setitem k v d = d @ [(k, v)]"
  by (induction d) auto

lemma dict_snoc: "dict (ps @ [(k, v)]) = setitem k v (dict ps)"
  by (simp add: dict_def)

lemma dict_distinct: "distinct (map fst ps) \<Longrightarrow> dict ps = ps"
proof (induction ps rule: rev_induct)
  case Nil
  then show ?case by (simp add: dict_def)
next
  case (snoc p ps)
  obtain k v where p: "p = (k, v)" by (cases p)
  from snoc.prems p have fresh: "k \<notin> fst ` set ps" and d: "distinct (map fst ps)" by auto
  from snoc.IH d have "dict ps = ps" by simp
  with fresh show ?case by (simp add: p dict_snoc setitem_fresh)
qed

lemma append_value_tabulate:
  "distinct ks \<Longrightarrow>
   append_value k v (map (\<lambda>w. (w, f w)) ks) =
     (if k \<in> set ks then map (\<lambda>w. (w, if w = k then f w @ [v] else f w)) ks
      else map (\<lambda>w. (w, f w)) ks @ [(k, [v])])"
  by (induction ks) auto

lemma shuffle_snoc:
  "shuffle_function (ps @ [(k, v)]) = append_value k v (shuffle_function ps)"
  by (simp add: shuffle_function_def)

lemma shuffle_mapped:
  "shuffle_function (map map_function ws) =
     map (\<lambda>w. (w, replicate (count_list ws w) 1)) (first_seen ws)"
proof (induction ws rule: rev_induct)
  case Nil
  then show ?case by (simp add: shuffle_function_def first_seen_def)
next
  case (snoc w ws)
  have step: "shuffle_function (map map_function (ws @ [w])) =
      append_value w 1 (map (\<lambda>w. (w, replicate (count_list ws w) 1)) (first_seen ws))"
  proof -
    have "map map_function (ws @ [w]) = map map_function ws @ [(w, 1)]"
      by (simp add: map_function_def)
    then show ?thesis by (simp only: shuffle_snoc snoc.IH)
  qed
  show ?case
  proof (cases "w \<in> set ws")
    case True
    then show ?thesis
      unfolding step
      by (simp add: append_value_tabulate distinct_first_seen set_first_seen first_seen_snoc
          replicate_append_same)
  next
    case False
    then show ?thesis
      unfolding step
      by (auto simp add: append_value_tabulate distinct_first_seen set_first_seen first_seen_snoc)
  qed
qed

lemma reduce_shuffle_mapped:
  "map reduce_function (shuffle_function (map map_function ws)) =
     map (\<lambda>w. (w, int (count_list ws w))) (first_seen ws)"
  by (simp add: shuffle_mapped reduce_function_def comp_def sum_list_replicate)

lemma counted:
  "dict (map reduce_function (shuffle_function (map map_function ws))) =
     map (\<lambda>w. (w, int (count_list ws w))) (first_seen ws)"
  unfolding reduce_shuffle_mapped
  by (rule dict_distinct) (simp add: comp_def distinct_first_seen)

lemma map_reduce_counted:
  "map_reduce text = map (\<lambda>w. (w, int (count_list (words_of text) w))) (first_seen (words_of text))"
  by (simp add: map_reduce_def Let_def counted)

lemma sum_counts: "sum_list (map (\<lambda>w. int (count_list ws w)) (first_seen ws)) = int (length ws)"
proof -
  have "sum_list (map (\<lambda>w. int (count_list ws w)) (first_seen ws)) = (\<Sum>w\<in>set ws. int (count_list ws w))"
    using sum_list_distinct_conv_sum_set [OF distinct_first_seen, of "\<lambda>w. int (count_list ws w)" ws]
    by (simp add: set_first_seen)
  also have "\<dots> = int (\<Sum>w\<in>set ws. count_list ws w)" by simp
  also have "\<dots> = int (length ws)" by (simp add: sum_count_set)
  finally show ?thesis .
qed

lemma keys_map_reduce: "set (map fst (map_reduce text)) = set (words_of text)"
  by (simp add: map_reduce_counted comp_def set_first_seen)

lemma map_of_counted:
  "map_of (dict (map reduce_function (shuffle_function (map map_function ws)))) w =
     (if w \<in> set ws then Some (int (count_list ws w)) else None)"
  unfolding counted
  by (simp add: map_of_map_restrict set_first_seen restrict_map_def)

lemma shuffle_step:
  "shuffle_function (map map_function (ws @ [w])) =
     (if w \<in> set ws
      then map (\<lambda>(k, counts). (k, if k = w then counts @ [1] else counts))
             (shuffle_function (map map_function ws))
      else shuffle_function (map map_function ws) @ [(w, [1])])"
proof -
  have "shuffle_function (map map_function (ws @ [w])) =
      append_value w 1 (shuffle_function (map map_function ws))"
  proof -
    have "map map_function (ws @ [w]) = map map_function ws @ [(w, 1)]"
      by (simp add: map_function_def)
    then show ?thesis by (simp only: shuffle_snoc)
  qed
  then show ?thesis
    by (simp add: shuffle_mapped append_value_tabulate distinct_first_seen set_first_seen comp_def)
qed

subsection \<open>What the normaliser leaves in a token\<close>

lemma of_char_bound: "(of_char c :: nat) < 256"
  by (cases c) (simp add: of_char_def)


lemma char_of_image:
  assumes "\<forall>n\<in>S. n < (256::nat)"
  shows "c \<in> char_of ` S \<longleftrightarrow> (of_char c :: nat) \<in> S"
proof
  assume "c \<in> char_of ` S"
  then obtain n where n: "n \<in> S" "c = char_of n" by blast
  with assms have "n < 256" by blast
  with n show "(of_char c :: nat) \<in> S" by simp
next
  assume "(of_char c :: nat) \<in> S"
  then have "char_of (of_char c :: nat) \<in> char_of ` S" by (rule imageI)
  then show "c \<in> char_of ` S" by simp
qed

lemma in_punctuation:
  "c \<in> set punctuation \<longleftrightarrow>
     (of_char c :: nat) \<in> {33..<48} \<union> {58..<65} \<union> {91..<97} \<union> {123..<127}"
proof -
  have "set punctuation = char_of ` ({33..<48} \<union> {58..<65} \<union> {91..<97} \<union> {123..<127} :: nat set)"
    by (simp only: punctuation_def set_map set_append set_upt image_Un Un_assoc)
  moreover have "\<forall>n\<in>{33..<48} \<union> {58..<65} \<union> {91..<97} \<union> {123..<127}. n < (256::nat)" by auto
  ultimately show ?thesis using char_of_image by simp
qed

lemma lower_char_not_upper: "\<not> isupper (lower_char c)"
  using of_char_bound [of c] by (auto simp add: isupper_def lower_char_def Let_def)

lemma lower_char_fixed: "\<not> isupper c \<Longrightarrow> lower_char c = c"
  by (auto simp add: isupper_def lower_char_def Let_def split: if_splits)

lemma lower_char_punctuation: "c \<notin> set punctuation \<Longrightarrow> lower_char c \<notin> set punctuation"
  using of_char_bound [of c] by (auto simp add: in_punctuation lower_char_def Let_def)

lemma isspace_lower_char: "isspace (lower_char c) = isspace c"
  using of_char_bound [of c] by (auto simp add: isspace_def lower_char_def Let_def)

lemma isspace_not_punctuation: "isspace c \<Longrightarrow> c \<notin> set punctuation"
  by (auto simp add: isspace_def in_punctuation Let_def split: if_splits)

lemma split_from_tokens:
  assumes "t \<in> set (split_from cur cs)" and "\<forall>c\<in>set cur. \<not> isspace c"
  shows "t \<noteq> [] \<and> (\<forall>c\<in>set t. \<not> isspace c \<and> c \<in> set cur \<union> set cs)"
  using assms
proof (induction cur cs rule: split_from.induct)
  case (1 cur)
  from "1.prems"(1) have "t = cur" and "cur \<noteq> []" by (simp_all split: if_splits)
  with "1.prems"(2) show ?case by simp
next
  case (2 cur c cs)
  show ?case
  proof (cases "isspace c")
    case True
    with "2.prems"(1) consider (here) "t = cur" "cur \<noteq> []" | (later) "t \<in> set (split_from [] cs)"
      by (cases "cur = []") auto
    then show ?thesis
    proof cases
      case here
      with "2.prems"(2) show ?thesis by simp
    next
      case later
      have e: "\<forall>c\<in>set []. \<not> isspace c" by simp
      have "t \<noteq> [] \<and> (\<forall>c\<in>set t. \<not> isspace c \<and> c \<in> set [] \<union> set cs)"
      proof (cases "cur = []")
        case True
        from "2.IH"(1) [OF \<open>isspace c\<close> True later e] show ?thesis .
      next
        case False
        from "2.IH"(2) [OF \<open>isspace c\<close> False later e] show ?thesis .
      qed
      then show ?thesis by simp
    qed
  next
    case False
    with "2.prems"(1) have m: "t \<in> set (split_from (cur @ [c]) cs)" by simp
    from "2.prems"(2) False have n: "\<forall>c'\<in>set (cur @ [c]). \<not> isspace c'" by simp
    from "2.IH"(3) [OF False m n]
    have "t \<noteq> [] \<and> (\<forall>c'\<in>set t. \<not> isspace c' \<and> c' \<in> set (cur @ [c]) \<union> set cs)" .
    then show ?thesis by simp
  qed
qed

lemma split_tokens:
  "t \<in> set (split text) \<Longrightarrow> t \<noteq> [] \<and> (\<forall>c\<in>set t. \<not> isspace c \<and> c \<in> set text)"
  using split_from_tokens [of t "[]" "text"] by (simp add: split_def)

lemma normal_Nil: "lower (remove_punctuation []) = []"
  by (simp add: lower_def remove_punctuation_def)

lemma normal_append:
  "lower (remove_punctuation (xs @ ys)) = lower (remove_punctuation xs) @ lower (remove_punctuation ys)"
  by (simp add: lower_def remove_punctuation_def)

lemma normal_Cons:
  "lower (remove_punctuation (c # cs)) =
     (if c \<in> set punctuation then lower (remove_punctuation cs)
      else lower_char c # lower (remove_punctuation cs))"
  by (simp add: lower_def remove_punctuation_def)

lemma split_from_normal:
  "split_from (lower (remove_punctuation cur)) (lower (remove_punctuation cs)) =
     filter (\<lambda>t. t \<noteq> []) (map (\<lambda>t. lower (remove_punctuation t)) (split_from cur cs))"
proof (induction cur cs rule: split_from.induct)
  case (1 cur)
  then show ?case by (simp add: normal_Nil)
next
  case (2 cur c cs)
  show ?case
  proof (cases "isspace c")
    case True
    then have np: "c \<notin> set punctuation" by (rule isspace_not_punctuation)
    from True have sp: "isspace (lower_char c)" by (simp add: isspace_lower_char)
    from True 2 have ih: "split_from (lower (remove_punctuation [])) (lower (remove_punctuation cs)) =
        filter (\<lambda>t. t \<noteq> []) (map (\<lambda>t. lower (remove_punctuation t)) (split_from [] cs))"
      by (cases "cur = []") simp_all
    show ?thesis
      using True np sp ih by (simp add: normal_Cons normal_Nil)
  next
    case False
    with 2 have ih: "split_from (lower (remove_punctuation (cur @ [c]))) (lower (remove_punctuation cs)) =
        filter (\<lambda>t. t \<noteq> []) (map (\<lambda>t. lower (remove_punctuation t)) (split_from (cur @ [c]) cs))"
      by simp
    show ?thesis
    proof (cases "c \<in> set punctuation")
      case True
      with False ih show ?thesis by (simp add: normal_Cons normal_append normal_Nil)
    next
      case np: False
      from False have "\<not> isspace (lower_char c)" by (simp add: isspace_lower_char)
      with False np ih show ?thesis by (simp add: normal_Cons normal_append normal_Nil)
    qed
  qed
qed

lemma split_normal:
  "split (lower (remove_punctuation txt)) =
     filter (\<lambda>t. t \<noteq> []) (map (\<lambda>t. lower (remove_punctuation t)) (split txt))"
  using split_from_normal [of "[]" "txt"] by (simp only: split_def normal_Nil)

lemma word_chars:
  assumes "k \<in> set (words_of txt)" and "c \<in> set k"
  shows "\<not> isupper c \<and> c \<notin> set punctuation \<and> \<not> isspace c"
proof -
  from assms(1) have "k \<in> set (split (lower (remove_punctuation txt)))"
    by (simp add: words_of_def)
  from split_tokens [OF this] assms(2)
  have sp: "\<not> isspace c" and "c \<in> set (lower (remove_punctuation txt))"
    by blast+
  then have "c \<in> lower_char ` {d \<in> set txt. d \<notin> set punctuation}"
    by (simp add: lower_def remove_punctuation_def)
  then obtain d where d: "d \<notin> set punctuation" "c = lower_char d" by blast
  from d have "\<not> isupper c" by (simp add: lower_char_not_upper)
  moreover from d have "c \<notin> set punctuation" by (simp add: lower_char_punctuation)
  ultimately show ?thesis using sp by blast
qed

lemma word_normal:
  assumes "k \<in> set (words_of txt)"
  shows "lower (remove_punctuation k) = k"
proof -
  have "filter (\<lambda>c. c \<notin> set punctuation) k = k"
    by (rule filter_True) (use word_chars [OF assms] in blast)
  then have "remove_punctuation k = k" by (simp add: remove_punctuation_def)
  moreover have "map lower_char k = k"
    by (rule map_idI) (use word_chars [OF assms] in \<open>simp add: lower_char_fixed\<close>)
  ultimately show ?thesis by (simp add: lower_def)
qed

subsection \<open>The claims\<close>

text \<open>
  C1. For every text, the values of the result of \<open>map_reduce\<close> add up to the number of
  tokens that are left after punctuation removal, lowercasing, splitting at white space
  and stop-word removal.
\<close>

theorem count_conservation:
  "sum_list (map snd (map_reduce text)) = int (length (words_of text))"
  by (simp add: map_reduce_counted comp_def sum_counts)

text \<open>
  C2. No stop word is a key of the result of \<open>map_reduce\<close>, whatever the text, its casing
  and the punctuation next to a word: a key has no capital, no punctuation and no white
  space; a string that lowercasing and punctuation removal turn into a stop word is no
  key; the keys are the words of the text between white space, lowercased and without
  their punctuation, other than the empty word and the stop words. "The," leaves no key.
\<close>

theorem stop_word_exclusion:
  "(w \<in> set articles \<longrightarrow> w \<notin> set (map fst (map_reduce text))) \<and>
   (k \<in> set (map fst (map_reduce text)) \<longrightarrow>
      (\<forall>c\<in>set k. \<not> isupper c \<and> c \<notin> set punctuation \<and> \<not> isspace c)) \<and>
   (lower (remove_punctuation t) \<in> set articles \<longrightarrow> t \<notin> set (map fst (map_reduce text))) \<and>
   set (map fst (map_reduce text)) =
     (\<lambda>t. lower (remove_punctuation t)) ` set (split text) - {[]} - set articles \<and>
   map_reduce ''The,'' = []"
proof -
  have stop: "\<And>w. w \<in> set articles \<Longrightarrow> w \<notin> set (map fst (map_reduce text))"
    unfolding keys_map_reduce by (simp add: words_of_def)
  have chars: "k \<in> set (map fst (map_reduce text)) \<longrightarrow>
      (\<forall>c\<in>set k. \<not> isupper c \<and> c \<notin> set punctuation \<and> \<not> isspace c)"
    unfolding keys_map_reduce using word_chars by blast
  have raw: "lower (remove_punctuation t) \<in> set articles \<longrightarrow> t \<notin> set (map fst (map_reduce text))"
  proof
    assume a: "lower (remove_punctuation t) \<in> set articles"
    show "t \<notin> set (map fst (map_reduce text))"
    proof
      assume k: "t \<in> set (map fst (map_reduce text))"
      then have "lower (remove_punctuation t) = t"
        unfolding keys_map_reduce by (rule word_normal)
      with a have "t \<in> set articles" by simp
      with stop k show False by blast
    qed
  qed
  have keys: "set (map fst (map_reduce text)) =
      (\<lambda>t. lower (remove_punctuation t)) ` set (split text) - {[]} - set articles"
    unfolding keys_map_reduce by (auto simp add: words_of_def split_normal)
  have ex: "map_reduce ''The,'' = []" by code_simp
  from stop chars raw keys ex show ?thesis by blast
qed

theorem stop_word_exclusion_witness:
  "''the'' \<in> set articles \<and> ''cat'' \<in> set (map fst (map_reduce ''The, cat AND the dog'')) \<and>
   lower (remove_punctuation ''The,'') \<in> set articles \<and>
   ''the'' \<notin> set (map fst (map_reduce ''The, cat AND the dog'')) \<and>
   ''The,'' \<notin> set (map fst (map_reduce ''The, cat AND the dog'')) \<and>
   CHR ''c'' \<in> set ''cat'' \<and>
   \<not> isupper (CHR ''c'') \<and> CHR ''c'' \<notin> set punctuation \<and> \<not> isspace (CHR ''c'') \<and>
   map_reduce ''The, cat AND the dog'' = [(''cat'', 1), (''dog'', 1)]"
proof -
  have m: "map_reduce ''The, cat AND the dog'' = [(''cat'', 1), (''dog'', 1)]" by code_simp
  have a: "''the'' \<in> set articles" by (simp add: articles_def)
  have k: "''cat'' \<in> set (map fst (map_reduce ''The, cat AND the dog''))" by (simp add: m)
  have n: "lower (remove_punctuation ''The,'') \<in> set articles" by code_simp
  have c: "CHR ''c'' \<in> set ''cat''" by simp
  from stop_word_exclusion [of "''the''" "''The, cat AND the dog''" "''cat''" "''The,''"] a k n m c
  show ?thesis by blast
qed

text \<open>
  C3. On the text "The cat sat on the cat mat. A CAT ran!" the tokens after normalisation
  and stop-word removal are cat, sat, cat, mat, cat, ran, and \<open>map_reduce\<close> returns
  cat: 3, sat: 1, mat: 1, ran: 1.
\<close>

theorem example_text:
  "words_of ''The cat sat on the cat mat. A CAT ran!'' =
     [''cat'', ''sat'', ''cat'', ''mat'', ''cat'', ''ran''] \<and>
   map_reduce ''The cat sat on the cat mat. A CAT ran!'' =
     [(''cat'', 3), (''sat'', 1), (''mat'', 1), (''ran'', 1)]"
  by code_simp

text \<open>
  C4. Feeding a permutation of a token sequence through the mapper, the shuffler and the
  reducer gives the same mapping from words to counts as the sequence itself.
\<close>

theorem permutation_invariance:
  assumes "mset ws' = mset ws"
  shows "map_of (dict (map reduce_function (shuffle_function (map map_function ws')))) =
         map_of (dict (map reduce_function (shuffle_function (map map_function ws))))"
proof
  fix w
  from assms have "set ws' = set ws" by (rule mset_eq_setD)
  moreover from assms have "count_list ws' w = count_list ws w"
    by (metis count_mset)
  ultimately show "map_of (dict (map reduce_function (shuffle_function (map map_function ws')))) w =
         map_of (dict (map reduce_function (shuffle_function (map map_function ws)))) w"
    by (simp add: map_of_counted)
qed

theorem permutation_invariance_witness:
  "mset [''ran'', ''cat'', ''cat''] = mset [''cat'', ''ran'', ''cat''] \<and>
   map_of (dict (map reduce_function (shuffle_function (map map_function [''ran'', ''cat'', ''cat''])))) =
   map_of (dict (map reduce_function (shuffle_function (map map_function [''cat'', ''ran'', ''cat'']))))"
proof -
  have h: "mset [''ran'', ''cat'', ''cat''] = mset [''cat'', ''ran'', ''cat'']" by simp
  show ?thesis using h permutation_invariance [OF h] by simp
qed

text \<open>
  C5. \<open>map_reduce\<close> on the empty string returns the empty result; the function has no
  raising branch.
\<close>

theorem empty_text: "map_reduce [] = []"
  by code_simp

text \<open>
  C6. On the pairs the mapper makes of a token sequence, the shuffler makes one group for
  each distinct word, in the order of the first occurrences; the counts of a group are as
  many 1s as the word has occurrences. A further occurrence of a word adds a 1 to its
  group, and a new word opens a group at the end.
\<close>

theorem shuffle_groups:
  "distinct (map fst (shuffle_function (map map_function ws))) \<and>
   set (map fst (shuffle_function (map map_function ws))) = set ws \<and>
   shuffle_function (map map_function ws) =
     map (\<lambda>w. (w, replicate (count_list ws w) 1)) (first_seen ws) \<and>
   shuffle_function (map map_function (ws @ [w])) =
     (if w \<in> set ws
      then map (\<lambda>(k, counts). (k, if k = w then counts @ [1] else counts))
             (shuffle_function (map map_function ws))
      else shuffle_function (map map_function ws) @ [(w, [1])])"
proof -
  have "distinct (map fst (shuffle_function (map map_function ws)))"
    by (simp add: shuffle_mapped comp_def distinct_first_seen)
  moreover have "set (map fst (shuffle_function (map map_function ws))) = set ws"
    by (simp add: shuffle_mapped comp_def set_first_seen)
  ultimately show ?thesis
    using shuffle_mapped [of ws] shuffle_step [of ws w] by simp
qed

section \<open>Properties of the presentation\<close>

lemma mset_sorted_reverse: "mset (sorted_reverse key xs) = mset xs"
  by (simp add: sorted_reverse_def)

lemma descending_sorted_reverse:
  "sorted_wrt (\<lambda>p q. key q \<le> key p) (sorted_reverse key xs)"
proof -
  have "sorted (map key (sort_key key (rev xs)))" by simp
  then have "sorted_wrt (\<lambda>p q. key p \<le> key q) (sort_key key (rev xs))"
    by (simp add: sorted_wrt_map)
  then show ?thesis by (simp add: sorted_reverse_def sorted_wrt_rev)
qed

lemma stable_sorted_reverse:
  "filter (\<lambda>p. key p = c) (sorted_reverse key xs) = filter (\<lambda>p. key p = c) xs"
proof -
  have "filter (\<lambda>p. key p = c) (sort_key key (rev xs)) = filter (\<lambda>p. key p = c) (rev xs)"
    by (rule sort_key_stable)
  then have "rev (filter (\<lambda>p. key p = c) (sort_key key (rev xs))) = filter (\<lambda>p. key p = c) xs"
    by (simp add: rev_filter)
  then show ?thesis by (simp add: sorted_reverse_def rev_filter)
qed

lemma slice_to_nonneg: "0 \<le> n \<Longrightarrow> slice_to n xs = take (nat n) xs"
  by (simp add: slice_to_def)

lemma slice_to_neg: "n < 0 \<Longrightarrow> slice_to n xs = take (length xs - nat (- n)) xs"
proof -
  assume "n < 0"
  then have "nat (int (length xs) + n) = length xs - nat (- n)" by linarith
  with \<open>n < 0\<close> show ?thesis by (simp add: slice_to_def)
qed

lemma top_first:
  fixes x :: "'a \<times> int"
  assumes perm: "mset r = mset [x, y1, y2, y3]"
    and less: "snd y1 < snd x" "snd y2 < snd x" "snd y3 < snd x"
  shows "\<exists>p. take 2 (sorted_reverse snd r) = [x, p] \<and> p \<in> {y1, y2, y3}"
proof -
  let ?r = "sorted_reverse snd r"
  have m: "mset ?r = mset [x, y1, y2, y3]" using perm by (simp add: mset_sorted_reverse)
  have "length ?r = size (mset ?r)" by simp
  also have "\<dots> = 4" unfolding m by simp
  finally have len: "length ?r = 4" .
  then obtain a b c d where r: "?r = [a, b, c, d]"
    by (auto simp add: length_Suc_conv numeral_eq_Suc)
  have s: "set ?r = {x, y1, y2, y3}" using mset_eq_setD [OF m] by simp
  have srt: "sorted_wrt (\<lambda>p q. snd q \<le> snd p) ?r" by (rule descending_sorted_reverse)
  have ab: "snd b \<le> snd a" "snd c \<le> snd a" "snd d \<le> snd a"
    using srt unfolding r by auto
  have mem: "x \<in> {a, b, c, d}" and a: "a \<in> {x, y1, y2, y3}" using s unfolding r by auto
  have a_x: "a = x"
  proof (rule ccontr)
    assume "a \<noteq> x"
    with a less have "snd a < snd x" by auto
    moreover from \<open>a \<noteq> x\<close> mem ab have "snd x \<le> snd a" by auto
    ultimately show False by simp
  qed
  have "mset [b, c, d] = mset [y1, y2, y3]" using m unfolding r a_x by simp
  then have "set [b, c, d] = set [y1, y2, y3]" by (rule mset_eq_setD)
  then have "b \<in> {y1, y2, y3}" by auto
  with a_x show ?thesis by (simp add: r)
qed

text \<open>
  C7, as amended. For a result that is not empty, \<open>sorted_words\<close> is cut from the ranking
  of the pairs by descending count, in which pairs of equal count keep their order in the
  result (the order in which the words were first met): for \<open>top_n\<close> at least 0 it is
  the first \<open>top_n\<close> pairs of the ranking, all of them when there are fewer, and for a
  negative \<open>top_n\<close> it is the ranking without its last \<open>- top_n\<close> pairs. Over cat: 3,
  sat: 1, mat: 1, ran: 1, in whatever order, cat is first for \<open>top_n = 2\<close>.
\<close>

theorem top_n_selection:
  assumes "result \<noteq> []"
  shows "(0 \<le> top_n \<longrightarrow> sorted_words result top_n = take (nat top_n) (sorted_reverse snd result)) \<and>
         (top_n < 0 \<longrightarrow>
            sorted_words result top_n =
              take (length result - nat (- top_n)) (sorted_reverse snd result)) \<and>
         mset (sorted_reverse snd result) = mset result \<and>
         sorted_wrt (\<lambda>p q. snd q \<le> snd p) (sorted_reverse snd result) \<and>
         filter (\<lambda>p. snd p = c) (sorted_reverse snd result) = filter (\<lambda>p. snd p = c) result \<and>
         (mset result = mset example_result \<longrightarrow>
            (\<exists>p. sorted_words result 2 = [(''cat'', 3), p] \<and>
                 p \<in> {(''sat'', 1), (''mat'', 1), (''ran'', 1)}))"
proof -
  have len: "length (sorted_reverse snd result) = length result"
    by (simp add: sorted_reverse_def)
  have neg: "top_n < 0 \<longrightarrow>
      sorted_words result top_n = take (length result - nat (- top_n)) (sorted_reverse snd result)"
    using slice_to_neg [of top_n "sorted_reverse snd result"] by (simp add: sorted_words_def len)
  have cat: "mset result = mset example_result \<longrightarrow>
      (\<exists>p. sorted_words result 2 = [(''cat'', 3), p] \<and> p \<in> {(''sat'', 1), (''mat'', 1), (''ran'', 1)})"
  proof
    assume "mset result = mset example_result"
    then have "mset result = mset [(''cat'', 3::int), (''sat'', 1), (''mat'', 1), (''ran'', 1)]"
      by (simp only: example_result_def)
    from top_first [OF this] show "\<exists>p. sorted_words result 2 = [(''cat'', 3), p] \<and>
        p \<in> {(''sat'', 1), (''mat'', 1), (''ran'', 1)}"
      by (simp add: sorted_words_def slice_to_def)
  qed
  show ?thesis
    using neg cat mset_sorted_reverse [of snd result] descending_sorted_reverse [of snd result]
      stable_sorted_reverse [of snd c result]
    by (simp add: sorted_words_def slice_to_nonneg)
qed

theorem top_n_selection_witness:
  "example_result \<noteq> [] \<and> (0::int) \<le> 2 \<and>
   sorted_words example_result 2 = take (nat 2) (sorted_reverse snd example_result) \<and>
   (\<exists>p. sorted_words example_result 2 = [(''cat'', 3), p] \<and>
        p \<in> {(''sat'', 1), (''mat'', 1), (''ran'', 1)})"
proof -
  have h: "example_result \<noteq> []" by (simp add: example_result_def)
  have z: "(0::int) \<le> 2" by simp
  from top_n_selection [OF h, of 2 1] z
  have "sorted_words example_result 2 = take (nat 2) (sorted_reverse snd example_result)"
    and "\<exists>p. sorted_words example_result 2 = [(''cat'', 3), p] \<and>
        p \<in> {(''sat'', 1), (''mat'', 1), (''ran'', 1)}"
    by blast+
  with h z show ?thesis by blast
qed

text \<open>
  With \<open>top_n = - 1\<close> the slice drops the last pair only: three pairs are selected.
\<close>

theorem top_n_negative_counterexample:
  "sorted_words example_result (- 1) = [(''cat'', 3), (''sat'', 1), (''mat'', 1)] \<and>
   \<not> int (length (sorted_words example_result (- 1))) \<le> - 1"
  by code_simp

text \<open>
  C10. \<open>visualize_top_words\<close> raises on the empty result, whatever \<open>top_n\<close>, since no
  pair is there to be unpacked; where it makes a chart, the result is not empty.
\<close>

theorem visualize_empty_raises:
  "visualize_top_words [] top_n = Inl ValueError \<and>
   (visualize_top_words result top_n = Inr c \<longrightarrow> result \<noteq> [])"
proof -
  have e: "visualize_top_words [] top_n = Inl ValueError"
    by (simp add: visualize_top_words_def sorted_words_def slice_to_def sorted_reverse_def)
  then show ?thesis by auto
qed

theorem visualize_empty_raises_witness:
  "visualize_top_words example_result 2 =
     Inr \<lparr>bar_words = [''cat'', ''sat''], bar_frequencies = [3, 1], title_top_n = 2\<rparr> \<and>
   example_result \<noteq> []"
proof -
  have h: "visualize_top_words example_result 2 =
     Inr \<lparr>bar_words = [''cat'', ''sat''], bar_frequencies = [3, 1], title_top_n = 2\<rparr>"
    by code_simp
  from visualize_empty_raises [of 2 example_result] h show ?thesis by simp
qed

section \<open>Properties of the file sorter\<close>

lemma rfind_from_cases:
  "rfind_from c xs i found = found \<or>
   (i \<le> rfind_from c xs i found \<and> rfind_from c xs i found < i + int (length xs) \<and>
    xs ! nat (rfind_from c xs i found - i) = c)"
proof (induction xs arbitrary: i found)
  case Nil
  then show ?case by simp
next
  case (Cons x xs)
  let ?f = "if x = c then i else found"
  let ?r = "rfind_from c xs (i + 1) ?f"
  from Cons.IH [of "i + 1" ?f]
  consider (same) "?r = ?f"
    | (later) "i + 1 \<le> ?r" "?r < i + 1 + int (length xs)" "xs ! nat (?r - (i + 1)) = c"
    by blast
  then show ?case
  proof cases
    case same
    then show ?thesis by auto
  next
    case later
    from later(1) have "nat (?r - i) = Suc (nat (?r - (i + 1)))" by linarith
    with later show ?thesis by simp
  qed
qed

lemma rfind_found:
  assumes "0 \<le> rfind s c"
  shows "rfind s c < int (length s) \<and> s ! nat (rfind s c) = c"
  using rfind_from_cases [of c s 0 "- 1"] assms by (auto simp add: rfind_def)

lemma suffix_shape:
  assumes "suffix p \<noteq> []"
  shows "hd (suffix p) = CHR ''.'' \<and> tl (suffix p) \<noteq> []"
proof -
  let ?nm = "name p"
  let ?i = "rfind ?nm (CHR ''.'')"
  from assms have i: "0 < ?i" "?i < int (length ?nm) - 1" and eq: "suffix p = drop (nat ?i) ?nm"
    by (auto simp add: suffix_def Let_def split: if_splits)
  from i have at: "?nm ! nat ?i = CHR ''.''" using rfind_found [of ?nm "CHR ''.''"] by simp
  from i have lt: "nat ?i < length ?nm" by linarith
  have "hd (drop (nat ?i) ?nm) = ?nm ! nat ?i" using lt by (simp add: hd_drop_conv_nth)
  moreover have "tl (drop (nat ?i) ?nm) \<noteq> []"
  proof
    assume "tl (drop (nat ?i) ?nm) = []"
    then have "length (tl (drop (nat ?i) ?nm)) = 0" by simp
    then have "length ?nm - nat ?i - 1 = 0" by simp
    with i show False by linarith
  qed
  ultimately show ?thesis using at eq by simp
qed

lemma extension_cases:
  "extension p = (if suffix p = [] then ''no_extension'' else tl (suffix p))"
  using suffix_shape [of p] by (auto simp add: extension_def Let_def drop_Suc)

lemma make_dirs_raises:
  "make_dirs p cs w = Inl (e, w') \<Longrightarrow> is_Exception e \<and> log w' = log w"
proof (induction cs arbitrary: p w)
  case Nil
  then show ?case by simp
next
  case (Cons c cs)
  then show ?case
    by (auto simp add: Let_def split: option.splits node.splits if_splits)
qed

lemma make_dirs_returns:
  "make_dirs p cs w = Inr w' \<Longrightarrow>
     log w' = log w \<and> denied w' = denied w \<and>
     (fs w' x = fs w x \<or> (fs w x = None \<and> fs w' x = Some Dir))"
proof (induction cs arbitrary: p w)
  case Nil
  then show ?case by simp
next
  case (Cons c cs)
  show ?case
  proof (cases "fs w (p @ [c])")
    case None
    with Cons.prems have nd: "p @ [c] \<notin> denied w"
      and rec: "make_dirs (p @ [c]) cs (w\<lparr>fs := (fs w)(p @ [c] \<mapsto> Dir)\<rparr>) = Inr w'"
      by (auto simp add: Let_def split: if_splits)
    from Cons.IH [OF rec] None show ?thesis by (auto split: if_splits)
  next
    case (Some n)
    with Cons.prems have rec: "make_dirs (p @ [c]) cs w = Inr w'"
      by (cases n) (auto simp add: Let_def)
    from Cons.IH [OF rec] show ?thesis .
  qed
qed

lemma copy_try_raises:
  assumes "copy_try source_path destination_folder w = Inl (e, w')"
  shows "is_Exception e \<and> log w' = log w"
proof -
  let ?dst = "destination_path source_path destination_folder"
  show ?thesis
  proof (cases "mkdir (parent ?dst) w")
    case (Inl x)
    with assms have "mkdir (parent ?dst) w = Inl (e, w')" by (simp add: copy_try_def Let_def)
    then show ?thesis unfolding mkdir_def by (rule make_dirs_raises)
  next
    case (Inr w1)
    then have l1: "log w1 = log w" unfolding mkdir_def using make_dirs_returns by blast
    from assms Inr l1 show ?thesis
      by (auto simp add: copy_try_def Let_def open_rb_def open_wb_def
          split: sum.splits option.splits node.splits if_splits)
  qed
qed

lemma copy_try_returns:
  assumes "copy_try source_path destination_folder w = Inr w'"
  shows "log w' = log w @ [Info source_path (destination_path source_path destination_folder)] \<and>
         (\<exists>data. fs w' (destination_path source_path destination_folder) = Some (File data) \<and>
            (destination_path source_path destination_folder \<noteq> source_path \<longrightarrow>
               fs w source_path = Some (File data)))"
proof -
  let ?dst = "destination_path source_path destination_folder"
  from assms obtain w1 where m: "mkdir (parent ?dst) w = Inr w1"
    by (auto simp add: copy_try_def Let_def split: sum.splits)
  from m have l1: "log w1 = log w"
    and f1: "fs w1 source_path = fs w source_path \<or> (fs w source_path = None \<and> fs w1 source_path = Some Dir)"
    unfolding mkdir_def using make_dirs_returns by blast+
  from assms m obtain data where src: "fs w1 source_path = Some (File data)"
    by (auto simp add: copy_try_def Let_def open_rb_def split: sum.splits option.splits node.splits if_splits)
  with f1 have src0: "fs w source_path = Some (File data)" by auto
  from assms m src l1 src0 show ?thesis
    by (auto simp add: copy_try_def Let_def open_rb_def open_wb_def read_all_def write_all_def
        split: sum.splits option.splits node.splits if_splits)
qed

lemma open_rb_result:
  "open_rb p w = Inl (e, w') \<Longrightarrow> is_Exception e \<and> w' = w"
  "open_rb p w = Inr w' \<Longrightarrow> w' = w"
  by (auto simp add: open_rb_def split: option.splits node.splits if_splits)

lemma open_wb_result:
  "open_wb p w = Inl (e, w') \<Longrightarrow> is_Exception e \<and> w' = w"
  "open_wb p w = Inr w' \<Longrightarrow> log w' = log w"
  by (auto simp add: open_wb_def split: option.splits node.splits if_splits)

lemma mkdir_result:
  "mkdir p w = Inl (e, w') \<Longrightarrow> is_Exception e \<and> log w' = log w"
  "mkdir p w = Inr w' \<Longrightarrow> log w' = log w"
  unfolding mkdir_def using make_dirs_raises make_dirs_returns by blast+

lemma handler_step:
  assumes "is_Exception e" and "handler s e w = (st', w')"
  shows "st' = Returned \<and> log w' = log w @ [Error s e]"
  using assms by (auto simp add: handler_def)

lemma resume_step:
  assumes "ok st" and "resume st w = (st', w')"
  shows "ok st' \<and> (\<exists>es. log w' = log w @ es \<and> mset (map entry_source es) + remaining st' = remaining st)"
proof (cases st)
  case (Created s d)
  show ?thesis
  proof (cases "mkdir (parent (destination_path s d)) w")
    case (Inl x)
    obtain e w1 where x: "x = (e, w1)" by (cases x)
    from mkdir_result(1) Inl x have e: "is_Exception e" and l: "log w1 = log w" by blast+
    from assms(2) Created Inl x have "handler s e w1 = (st', w')" by (simp add: Let_def)
    from handler_step [OF e this] l have "st' = Returned" "log w' = log w @ [Error s e]" by simp_all
    then show ?thesis using Created by simp
  next
    case (Inr w1)
    with mkdir_result(2) have "log w1 = log w" by blast
    with assms(2) Created Inr show ?thesis by (auto simp add: Let_def)
  qed
next
  case (Opening_src s dst)
  show ?thesis
  proof (cases "open_rb s w")
    case (Inl x)
    obtain e w1 where x: "x = (e, w1)" by (cases x)
    from open_rb_result(1) Inl x have e: "is_Exception e" and l: "w1 = w" by blast+
    from assms(2) Opening_src Inl x have "handler s e w1 = (st', w')" by simp
    from handler_step [OF e this] l have "st' = Returned" "log w' = log w @ [Error s e]" by simp_all
    then show ?thesis using Opening_src by simp
  next
    case (Inr w1)
    with open_rb_result(2) have "w1 = w" by blast
    with assms(2) Opening_src Inr show ?thesis by auto
  qed
next
  case (Opening_dst s dst)
  show ?thesis
  proof (cases "open_wb dst w")
    case (Inl x)
    obtain e w1 where x: "x = (e, w1)" by (cases x)
    from open_wb_result(1) Inl x have e: "is_Exception e" and l: "w1 = w" by blast+
    with assms(2) Opening_dst Inl x show ?thesis by auto
  next
    case (Inr w1)
    with open_wb_result(2) have "log w1 = log w" by blast
    with assms(2) Opening_dst Inr show ?thesis by auto
  qed
next
  case (Reading s dst)
  with assms(2) show ?thesis by auto
next
  case (Writing s dst data)
  with assms(2) show ?thesis by (auto simp add: write_all_def)
next
  case (Closing_dst s dst pending)
  with assms show ?thesis by (cases pending) auto
next
  case (Closing_src s dst pending)
  show ?thesis
  proof (cases pending)
    case None
    with assms(2) Closing_src show ?thesis by auto
  next
    case (Some e)
    with assms(1) Closing_src have e: "is_Exception e" by simp
    from assms(2) Closing_src Some have "handler s e w = (st', w')" by simp
    from handler_step [OF e this] have "st' = Returned" "log w' = log w @ [Error s e]" by simp_all
    then show ?thesis using Closing_src by simp
  qed
next
  case Returned
  with assms(2) show ?thesis by auto
next
  case (Raised e)
  with assms(1) show ?thesis by simp
qed

lemma resume_rank: "resume st w = (st', w') \<Longrightarrow> rank st' \<le> rank st - 1"
  by (cases st)
    (auto simp add: Let_def handler_def split: sum.splits prod.splits option.splits if_splits)

lemma rank_0: "ok st \<Longrightarrow> rank st = 0 \<Longrightarrow> st = Returned"
  by (cases st) auto

lemma run_for_step:
  assumes "ok st" and "run_for n st w = (st', w')"
  shows "ok st' \<and> rank st' \<le> rank st - n \<and>
    (\<exists>es. log w' = log w @ es \<and> mset (map entry_source es) + remaining st' = remaining st)"
  using assms
proof (induction n arbitrary: st w)
  case 0
  then show ?case by simp
next
  case (Suc n)
  obtain st1 w1 where r: "resume st w = (st1, w1)" by (cases "resume st w")
  from resume_step [OF Suc.prems(1) r] obtain es1 where
    ok1: "ok st1" and l1: "log w1 = log w @ es1"
    and m1: "mset (map entry_source es1) + remaining st1 = remaining st" by blast
  from Suc.prems(2) r have "run_for n st1 w1 = (st', w')" by simp
  from Suc.IH [OF ok1 this] obtain es2 where
    ok2: "ok st'" and k2: "rank st' \<le> rank st1 - n" and l2: "log w' = log w1 @ es2"
    and m2: "mset (map entry_source es2) + remaining st' = remaining st1" by blast
  from resume_rank [OF r] k2 have "rank st' \<le> rank st - Suc n" by simp
  moreover have "log w' = log w @ (es1 @ es2)" using l1 l2 by simp
  moreover have "mset (map entry_source (es1 @ es2)) + remaining st' = remaining st"
    using m1 m2 by (simp add: add.assoc)
  ultimately show ?case using ok2 by blast
qed

lemma rank_bound: "rank st \<le> 7"
  by (cases st) auto

lemma finish_step:
  assumes "ok st" and "finish st w = (st', w')"
  shows "st' = Returned \<and> (\<exists>es. log w' = log w @ es \<and> mset (map entry_source es) = remaining st)"
proof -
  from run_for_step [OF assms(1)] assms(2) obtain es where
    o: "ok st'" and k: "rank st' \<le> rank st - 7" and l: "log w' = log w @ es"
    and m: "mset (map entry_source es) + remaining st' = remaining st"
    unfolding finish_def by blast
  from k rank_bound [of st] have "rank st' = 0" by simp
  with o have "st' = Returned" by (rule rank_0)
  with l m show ?thesis by auto
qed

lemma each_step:
  assumes step: "\<And>t w t' w'. ok t \<Longrightarrow> f t w = (t', w') \<Longrightarrow>
      ok t' \<and> (\<exists>es. log w' = log w @ es \<and> mset (map entry_source es) + remaining t' = remaining t)"
    and "\<forall>t\<in>set ts. ok t" and "each f ts w = (ts', w')"
  shows "(\<forall>t\<in>set ts'. ok t) \<and>
    (\<exists>es. log w' = log w @ es \<and>
       mset (map entry_source es) + sum_list (map remaining ts') = sum_list (map remaining ts))"
  using assms(2,3)
proof (induction ts arbitrary: w ts' w')
  case Nil
  then show ?case by simp
next
  case (Cons t ts)
  obtain t1 w1 where f: "f t w = (t1, w1)" by (cases "f t w")
  obtain ts2 w2 where e: "each f ts w1 = (ts2, w2)" by (cases "each f ts w1")
  from Cons.prems(2) f e have res: "ts' = t1 # ts2" "w' = w2" by simp_all
  from Cons.prems(1) have "ok t" and oks: "\<forall>t\<in>set ts. ok t" by simp_all
  from step [OF \<open>ok t\<close> f] obtain es1 where
    ok1: "ok t1" and l1: "log w1 = log w @ es1"
    and m1: "mset (map entry_source es1) + remaining t1 = remaining t" by blast
  from Cons.IH [OF oks e] obtain es2 where
    ok2: "\<forall>t\<in>set ts2. ok t" and l2: "log w2 = log w1 @ es2"
    and m2: "mset (map entry_source es2) + sum_list (map remaining ts2) = sum_list (map remaining ts)"
    by blast
  have "log w' = log w @ (es1 @ es2)" using l1 l2 res by simp
  moreover have "mset (map entry_source (es1 @ es2)) + sum_list (map remaining ts') =
      sum_list (map remaining (t # ts))"
  proof -
    have "mset (map entry_source (es1 @ es2)) + sum_list (map remaining ts') =
        (mset (map entry_source es1) + remaining t1) +
        (mset (map entry_source es2) + sum_list (map remaining ts2))"
      using res by (simp add: ac_simps)
    also have "\<dots> = remaining t + sum_list (map remaining ts)" by (simp only: m1 m2)
    finally show ?thesis by simp
  qed
  moreover have "\<forall>t\<in>set ts'. ok t" using ok1 ok2 res by simp
  ultimately show ?case by blast
qed

lemma first_raised_ok: "\<forall>t\<in>set ts. ok t \<Longrightarrow> first_raised ts = None"
proof (induction ts)
  case Nil
  then show ?case by simp
next
  case (Cons t ts)
  then show ?case by (cases t) simp_all
qed

lemma each_finish_returned:
  assumes "\<forall>t\<in>set ts. ok t" and "each finish ts w = (ts', w')"
  shows "sum_list (map remaining ts') = {#}"
  using assms
proof (induction ts arbitrary: w ts' w')
  case Nil
  then show ?case by simp
next
  case (Cons t ts)
  obtain t1 w1 where f: "finish t w = (t1, w1)" by (cases "finish t w")
  obtain ts2 w2 where e: "each finish ts w1 = (ts2, w2)" by (cases "each finish ts w1")
  from Cons.prems(2) f e have res: "ts' = t1 # ts2" by simp
  from Cons.prems(1) have "ok t" and oks: "\<forall>t\<in>set ts. ok t" by simp_all
  from finish_step [OF \<open>ok t\<close> f] have "t1 = Returned" by simp
  moreover from Cons.IH [OF oks e] have "sum_list (map remaining ts2) = {#}" .
  ultimately show ?case using res by simp
qed

lemma remaining_update:
  "i < length ts \<Longrightarrow>
     sum_list (map remaining (ts[i := t])) + remaining (ts ! i) = sum_list (map remaining ts) + remaining t"
proof (induction ts arbitrary: i)
  case Nil
  then show ?case by simp
next
  case (Cons a ts)
  show ?case
  proof (cases i)
    case 0
    then show ?thesis by (simp add: ac_simps)
  next
    case (Suc j)
    with Cons.prems have "j < length ts" by simp
    from Cons.IH [OF this] Suc show ?thesis by (simp add: ac_simps)
  qed
qed

lemma finish_as_step:
  assumes "ok t" and "finish t w = (t', w')"
  shows "ok t' \<and> (\<exists>es. log w' = log w @ es \<and> mset (map entry_source es) + remaining t' = remaining t)"
  using finish_step [OF assms] by auto

lemma not_raised:
  "ok t \<Longrightarrow> (case t of Raised e \<Rightarrow> a e | _ \<Rightarrow> b) = b"
  by (cases t) simp_all

lemma run_events_returns:
  assumes "Interrupt \<notin> set evs" and "\<forall>t\<in>set ts. ok t"
  shows "\<exists>w' es. run_events evs ts w = Inr w' \<and> log w' = log w @ es \<and>
           mset (map entry_source es) = sum_list (map remaining ts)"
  using assms
proof (induction evs arbitrary: ts w)
  case Nil
  obtain ts' w' where e: "each finish ts w = (ts', w')" by (cases "each finish ts w")
  from each_step [of finish, OF finish_as_step Nil.prems(2) e] obtain es where
    oks: "\<forall>t\<in>set ts'. ok t" and l: "log w' = log w @ es"
    and m: "mset (map entry_source es) + sum_list (map remaining ts') = sum_list (map remaining ts)"
    by blast
  from each_finish_returned [OF Nil.prems(2) e] m
  have "mset (map entry_source es) = sum_list (map remaining ts)" by simp
  moreover from first_raised_ok [OF oks] e have "run_events [] ts w = Inr w'" by simp
  ultimately show ?case using l by blast
next
  case (Cons ev evs)
  from Cons.prems(1) have noint: "Interrupt \<notin> set evs" and "ev \<noteq> Interrupt" by auto
  then obtain i where ev: "ev = Resume i" by (cases ev) auto
  show ?case
  proof (cases "i < length ts \<and> \<not> finished (ts ! i)")
    case False
    with ev have "run_events (ev # evs) ts w = run_events evs ts w" by auto
    with Cons.IH [OF noint Cons.prems(2), of w] show ?thesis by simp
  next
    case True
    then have i: "i < length ts" by simp
    obtain t1 w1 where r: "resume (ts ! i) w = (t1, w1)" by (cases "resume (ts ! i) w")
    from Cons.prems(2) i have "ok (ts ! i)" by simp
    from resume_step [OF this r] obtain es1 where
      ok1: "ok t1" and l1: "log w1 = log w @ es1"
      and m1: "mset (map entry_source es1) + remaining t1 = remaining (ts ! i)" by blast
    have oks: "\<forall>t\<in>set (ts[i := t1]). ok t"
      using Cons.prems(2) ok1 set_update_subset_insert [of ts i t1] by auto
    from Cons.IH [OF noint oks, of w1] obtain w' es2 where
      run: "run_events evs (ts[i := t1]) w1 = Inr w'" and l2: "log w' = log w1 @ es2"
      and m2: "mset (map entry_source es2) = sum_list (map remaining (ts[i := t1]))" by blast
    have "run_events (ev # evs) ts w = Inr w'"
      using True ev r run by (simp add: not_raised [OF ok1])
    moreover have "log w' = log w @ (es1 @ es2)" using l1 l2 by simp
    moreover have "mset (map entry_source (es1 @ es2)) = sum_list (map remaining ts)"
    proof -
      have "mset (map entry_source (es1 @ es2)) + remaining t1 =
          sum_list (map remaining (ts[i := t1])) + remaining (ts ! i)"
        using m1 m2 by (simp add: ac_simps)
      also have "\<dots> = sum_list (map remaining ts) + remaining t1"
        by (rule remaining_update [OF i])
      finally show ?thesis by simp
    qed
    ultimately show ?thesis by blast
  qed
qed

lemma created_tasks:
  "(\<forall>t\<in>set (map (\<lambda>file. Created (joinpath root file) output_folder) files). ok t) \<and>
   sum_list (map remaining (map (\<lambda>file. Created (joinpath root file) output_folder) files)) =
     mset (map (joinpath root) files)"
  by (induction files) auto

lemma gather_returns:
  assumes "Interrupt \<notin> set schedule"
  shows "\<exists>w' es. gather schedule (map (\<lambda>file. Created (joinpath root file) output_folder) files) w = Inr w' \<and>
           log w' = log w @ es \<and> mset (map entry_source es) = mset (map (joinpath root) files)"
proof (cases "files = []")
  case True
  then show ?thesis by (simp add: gather_def)
next
  case False
  let ?tasks = "map (\<lambda>file. Created (joinpath root file) output_folder) files"
  from created_tasks [of root output_folder files]
  have oks: "\<forall>t\<in>set ?tasks. ok t"
    and rem: "sum_list (map remaining ?tasks) = mset (map (joinpath root) files)" by blast+
  obtain ts w1 where e: "each resume ?tasks w = (ts, w1)" by (cases "each resume ?tasks w")
  from each_step [of resume, OF resume_step oks e] obtain es1 where
    oks1: "\<forall>t\<in>set ts. ok t" and l1: "log w1 = log w @ es1"
    and m1: "mset (map entry_source es1) + sum_list (map remaining ts) = sum_list (map remaining ?tasks)"
    by blast
  from run_events_returns [OF assms oks1, of w1] obtain w' es2 where
    run: "run_events schedule ts w1 = Inr w'" and l2: "log w' = log w1 @ es2"
    and m2: "mset (map entry_source es2) = sum_list (map remaining ts)" by blast
  have "gather schedule ?tasks w = Inr w'"
    using False e run first_raised_ok [OF oks1] by (simp add: gather_def)
  moreover have "log w' = log w @ (es1 @ es2)" using l1 l2 by simp
  moreover have "mset (map entry_source (es1 @ es2)) = mset (map (joinpath root) files)"
    using m1 m2 rem by simp
  ultimately show ?thesis by blast
qed

lemma read_folder_returns:
  assumes "Interrupt \<notin> set (concat schedules)"
  shows "\<exists>w' es. read_folder walk schedules output_folder w = Inr w' \<and>
           log w' = log w @ es \<and> mset (map entry_source es) = mset (walked_files walk)"
  using assms
proof (induction walk arbitrary: schedules w)
  case Nil
  then show ?case by (simp add: walked_files_def)
next
  case (Cons dir walk)
  obtain root files where dir: "dir = (root, files)" by (cases dir)
  let ?schedule = "case schedules of [] \<Rightarrow> [] | schedule # later \<Rightarrow> schedule"
  from Cons.prems have s1: "Interrupt \<notin> set ?schedule"
    and s2: "Interrupt \<notin> set (concat (tl schedules))"
    by (cases schedules; simp)+
  from gather_returns [OF s1, of root output_folder files w] obtain w1 es1 where
    g: "gather ?schedule (map (\<lambda>file. Created (joinpath root file) output_folder) files) w = Inr w1"
    and l1: "log w1 = log w @ es1"
    and m1: "mset (map entry_source es1) = mset (map (joinpath root) files)" by blast
  from Cons.IH [OF s2, of w1] obtain w' es2 where
    r: "read_folder walk (tl schedules) output_folder w1 = Inr w'"
    and l2: "log w' = log w1 @ es2"
    and m2: "mset (map entry_source es2) = mset (walked_files walk)" by blast
  have "read_folder (dir # walk) schedules output_folder w = Inr w'"
    using g r by (simp add: dir)
  moreover have "log w' = log w @ (es1 @ es2)" using l1 l2 by simp
  moreover have "mset (map entry_source (es1 @ es2)) = mset (walked_files (dir # walk))"
    using m1 m2 by (simp add: walked_files_def dir)
  ultimately show ?case by blast
qed

lemma copy_file_returns:
  "\<exists>w' entry. copy_file source_path destination_folder w = Inr w' \<and>
     log w' = log w @ [entry] \<and> entry_source entry = source_path"
proof (cases "copy_try source_path destination_folder w")
  case (Inl x)
  obtain e w1 where x: "x = (e, w1)" by (cases x)
  from Inl x copy_try_raises have "is_Exception e" "log w1 = log w" by blast+
  with Inl x show ?thesis by (simp add: copy_file_def)
next
  case (Inr w')
  with copy_try_returns [OF Inr] show ?thesis by (simp add: copy_file_def)
qed

lemma finish_copy_file:
  "finish (Created source_path destination_folder) w =
     (case copy_file source_path destination_folder w of
        Inl (e, w') \<Rightarrow> (Raised e, w')
      | Inr w' \<Rightarrow> (Returned, w'))"
proof -
  let ?dst = "destination_path source_path destination_folder"
  show ?thesis
  proof (cases "mkdir (parent ?dst) w")
    case (Inl x)
    then show ?thesis
      by (cases x)
        (simp add: finish_def eval_nat_numeral copy_file_def copy_try_def Let_def handler_def)
  next
    case m: (Inr w1)
    show ?thesis
    proof (cases "open_rb source_path w1")
      case (Inl x)
      with m show ?thesis
        by (cases x)
          (simp add: finish_def eval_nat_numeral copy_file_def copy_try_def Let_def handler_def)
    next
      case o: (Inr w2)
      show ?thesis
      proof (cases "open_wb ?dst w2")
        case (Inl x)
        with m o show ?thesis
          by (cases x)
            (simp add: finish_def eval_nat_numeral copy_file_def copy_try_def Let_def handler_def)
      next
        case (Inr w3)
        with m o show ?thesis
          by (simp add: finish_def eval_nat_numeral copy_file_def copy_try_def Let_def handler_def)
      qed
    qed
  qed
qed

text \<open>
  C8, as amended. An exception of class Exception in the body of \<open>copy_file\<close>, as every
  failure of the file system is, is caught there and logged with the source path. As long
  as the run is not cancelled, \<open>copy_file\<close> does not raise and \<open>read_folder\<close> returns
  having run the copy of every file of the walk, whatever the order in which the event
  loop resumes the copies: the log has one new entry for each file. A cancellation passes
  the handler and is raised.
\<close>

theorem copy_failures_isolated:
  assumes "Interrupt \<notin> set (concat schedules)"
  shows "(\<exists>w'. copy_file source_path destination_folder w = Inr w') \<and>
   (copy_try source_path destination_folder w = Inl (e, w1) \<longrightarrow>
      is_Exception e \<and>
      copy_file source_path destination_folder w =
        Inr (w1\<lparr>log := log w1 @ [Error source_path e]\<rparr>)) \<and>
   finish (Created source_path destination_folder) w =
     (case copy_file source_path destination_folder w of
        Inl (e', w') \<Rightarrow> (Raised e', w')
      | Inr w' \<Rightarrow> (Returned, w')) \<and>
   (\<exists>w' entries. read_folder walk schedules output_folder w = Inr w' \<and>
      log w' = log w @ entries \<and>
      mset (map entry_source entries) = mset (walked_files walk))"
proof -
  have "\<exists>w'. copy_file source_path destination_folder w = Inr w'"
    using copy_file_returns [of source_path destination_folder w] by blast
  moreover have "copy_try source_path destination_folder w = Inl (e, w1) \<longrightarrow>
      is_Exception e \<and>
      copy_file source_path destination_folder w = Inr (w1\<lparr>log := log w1 @ [Error source_path e]\<rparr>)"
    using copy_try_raises [of source_path destination_folder w e w1]
    by (simp add: copy_file_def)
  ultimately show ?thesis
    using read_folder_returns [OF assms, of walk output_folder w]
      finish_copy_file [of source_path destination_folder w]
    by blast
qed

lemmas fs_defs = copy_file_def copy_try_def destination_path_def extension_def suffix_def name_def
  rfind_def joinpath_def parent_def mkdir_def open_rb_def open_wb_def is_dir_def read_all_def
  write_all_def Let_def handler_def finish_def gather_def abort_def

theorem copy_failures_isolated_witness:
  "Interrupt \<notin> set (concat [[Resume 0, Resume 1]]) \<and>
   copy_try [''src'', ''missing''] [''out''] example_world =
     Inl (FileNotFoundError,
          example_world\<lparr>fs := (fs example_world)([''out''] \<mapsto> Dir, [''out'', ''no_extension''] \<mapsto> Dir)\<rparr>) \<and>
   copy_file [''src'', ''missing''] [''out''] example_world =
     Inr (example_world\<lparr>fs := (fs example_world)([''out''] \<mapsto> Dir, [''out'', ''no_extension''] \<mapsto> Dir),
            log := [Error [''src'', ''missing''] FileNotFoundError]\<rparr>) \<and>
   (\<exists>w'. read_folder [([''src''], [''a.txt'', ''missing''])] [[Resume 0, Resume 1]] [''out'']
           example_world = Inr w' \<and>
      log w' = [Error [''src'', ''missing''] FileNotFoundError,
                Info [''src'', ''a.txt''] [''out'', ''txt'', ''a.txt'']] \<and>
      fs w' [''out'', ''txt'', ''a.txt''] = Some (File ''hello''))"
proof -
  let ?w1 = "example_world\<lparr>fs := (fs example_world)([''out''] \<mapsto> Dir, [''out'', ''no_extension''] \<mapsto> Dir)\<rparr>"
  have s: "Interrupt \<notin> set (concat [[Resume 0, Resume 1]])" by simp
  have h: "copy_try [''src'', ''missing''] [''out''] example_world = Inl (FileNotFoundError, ?w1)"
    by (simp add: example_world_def fs_defs)
  have l: "log ?w1 = []" by (simp add: example_world_def)
  from copy_failures_isolated [OF s, of "[''src'', ''missing'']" "[''out'']" example_world FileNotFoundError ?w1] h
  have "copy_file [''src'', ''missing''] [''out''] example_world =
      Inr (?w1\<lparr>log := log ?w1 @ [Error [''src'', ''missing''] FileNotFoundError]\<rparr>)"
    by blast
  moreover have "\<exists>w'. read_folder [([''src''], [''a.txt'', ''missing''])] [[Resume 0, Resume 1]] [''out'']
           example_world = Inr w' \<and>
      log w' = [Error [''src'', ''missing''] FileNotFoundError,
                Info [''src'', ''a.txt''] [''out'', ''txt'', ''a.txt'']] \<and>
      fs w' [''out'', ''txt'', ''a.txt''] = Some (File ''hello'')"
    by (simp add: example_world_def fs_defs eval_nat_numeral)
  ultimately show ?thesis using s h l by simp
qed

text \<open>
  A cancellation at the first await: \<open>copy_file\<close> raises CancelledError, \<open>read_folder\<close>
  raises it, and the file is not copied.
\<close>

theorem cancelled_copy_counterexample:
  "cancel (Opening_src [''src'', ''a.txt''] [''out'', ''txt'', ''a.txt'']) example_world =
     (Raised CancelledError, example_world) \<and>
   read_folder [([''src''], [''a.txt''])] [[Interrupt]] [''out''] example_world =
     Inl (CancelledError,
          example_world\<lparr>fs := (fs example_world)([''out''] \<mapsto> Dir, [''out'', ''txt''] \<mapsto> Dir)\<rparr>) \<and>
   fs (example_world\<lparr>fs := (fs example_world)([''out''] \<mapsto> Dir, [''out'', ''txt''] \<mapsto> Dir)\<rparr>)
     [''out'', ''txt'', ''a.txt''] = None"
  by (simp add: example_world_def fs_defs eval_nat_numeral)

text \<open>
  C9. A file with an empty suffix goes to the subfolder \<open>no_extension\<close> of the
  destination folder, any other file to the subfolder named by its suffix without the
  leading dot; the file keeps its name. A copy that succeeds logs it and leaves a file at
  that path, with the content of the source when the two paths differ.
\<close>

theorem destination_by_extension:
  "extension source_path =
     (if suffix source_path = [] then ''no_extension'' else tl (suffix source_path)) \<and>
   (suffix source_path \<noteq> [] \<longrightarrow> suffix source_path = CHR ''.'' # extension source_path) \<and>
   (name source_path \<noteq> [] \<longrightarrow>
      destination_path source_path destination_folder =
        destination_folder @ [extension source_path, name source_path]) \<and>
   (copy_try source_path destination_folder w = Inr w' \<longrightarrow>
      log w' = log w @ [Info source_path (destination_path source_path destination_folder)] \<and>
      (\<exists>data. fs w' (destination_path source_path destination_folder) = Some (File data) \<and>
         (destination_path source_path destination_folder \<noteq> source_path \<longrightarrow>
            fs w source_path = Some (File data))))"
proof -
  have ext: "extension source_path \<noteq> []"
    using suffix_shape [of source_path] by (auto simp add: extension_cases)
  have "suffix source_path \<noteq> [] \<longrightarrow> suffix source_path = CHR ''.'' # extension source_path"
  proof
    assume ne: "suffix source_path \<noteq> []"
    with suffix_shape [OF ne] have "suffix source_path = CHR ''.'' # tl (suffix source_path)"
      by (cases "suffix source_path") auto
    with ne show "suffix source_path = CHR ''.'' # extension source_path"
      by (simp add: extension_cases)
  qed
  moreover have "name source_path \<noteq> [] \<longrightarrow>
      destination_path source_path destination_folder =
        destination_folder @ [extension source_path, name source_path]"
    using ext by (simp add: destination_path_def joinpath_def)
  ultimately show ?thesis
    using extension_cases [of source_path] copy_try_returns [of source_path destination_folder w w']
    by blast
qed

theorem destination_by_extension_witness:
  "suffix [''src'', ''a.txt''] \<noteq> [] \<and> name [''src'', ''a.txt''] \<noteq> [] \<and>
   suffix [''src'', ''a.txt''] = CHR ''.'' # extension [''src'', ''a.txt''] \<and>
   destination_path [''src'', ''a.txt''] [''out''] = [''out'', ''txt'', ''a.txt''] \<and>
   (\<exists>w'. copy_try [''src'', ''a.txt''] [''out''] example_world = Inr w' \<and>
      fs w' [''out'', ''txt'', ''a.txt''] = Some (File ''hello''))"
proof -
  let ?s = "[''src'', ''a.txt'']"
  have s: "suffix ?s \<noteq> []" and n: "name ?s \<noteq> []" and e: "extension ?s = ''txt''"
    by (simp_all add: fs_defs)
  have d: "destination_path ?s [''out''] = [''out'', ''txt'', ''a.txt'']"
    by (simp add: fs_defs)
  have "\<exists>w'. copy_try ?s [''out''] example_world = Inr w'"
    by (simp add: example_world_def fs_defs)
  then obtain w' where c: "copy_try ?s [''out''] example_world = Inr w'" ..
  have src: "fs example_world ?s = Some (File ''hello'')" by (simp add: example_world_def)
  from destination_by_extension [of ?s "[''out'']" example_world w'] s n c
  have "suffix ?s = CHR ''.'' # extension ?s"
    and "\<exists>data. fs w' (destination_path ?s [''out'']) = Some (File data) \<and>
         (destination_path ?s [''out''] \<noteq> ?s \<longrightarrow> fs example_world ?s = Some (File data))"
    by blast+
  with s n d c src show ?thesis by auto
qed

end
